theory Spec2Isabelle
  imports Main "HOL-Library.Char_ord" "HOL-Library.List_Lexorder" "HOL-Library.Product_Lexorder"
begin

section \<open>Characters and strings as the Python source sees them\<close>

text \<open>
  The model covers ASCII text: a \<^typ>\<open>char\<close> is read through its code, and the
  classes below are Python's classes on the code points below 128. Codes from 128 on
  belong to no class (they are neither whitespace, digits, letters nor word characters)
  and have no other case.

  \<open>is_space\<close> is the set that both \<^verbatim>\<open>str.strip()\<close> (no argument) and the
  pattern escape \<^verbatim>\<open>\s\<close> use on a \<^verbatim>\<open>str\<close>: tab, line feed, vertical tab, form feed,
  carriage return, the four separators 28 to 31, and the blank.
\<close>

definition is_space :: "char \<Rightarrow> bool" where
  "is_space c = (let n = (of_char c :: nat) in (9 \<le> n \<and> n \<le> 13) \<or> (28 \<le> n \<and> n \<le> 32))"

definition is_digit :: "char \<Rightarrow> bool" where
  "is_digit c = (let n = (of_char c :: nat) in 48 \<le> n \<and> n \<le> 57)"

definition is_upper :: "char \<Rightarrow> bool" where
  "is_upper c = (let n = (of_char c :: nat) in 65 \<le> n \<and> n \<le> 90)"

definition is_lower :: "char \<Rightarrow> bool" where
  "is_lower c = (let n = (of_char c :: nat) in 97 \<le> n \<and> n \<le> 122)"

text \<open>\<^verbatim>\<open>\w\<close>: letters, digits and the underscore; \<^verbatim>\<open>\b\<close> is defined from it.\<close>

definition is_word :: "char \<Rightarrow> bool" where
  "is_word c = (is_upper c \<or> is_lower c \<or> is_digit c \<or> c = CHR ''_'')"

definition to_upper :: "char \<Rightarrow> char" where
  "to_upper c = (if is_lower c then char_of ((of_char c :: nat) - 32) else c)"

definition to_lower :: "char \<Rightarrow> char" where
  "to_lower c = (if is_upper c then char_of ((of_char c :: nat) + 32) else c)"

text \<open>\<^verbatim>\<open>s.upper()\<close>\<close>

definition upper :: "string \<Rightarrow> string" where
  "upper s = map to_upper s"

text \<open>\<^verbatim>\<open>s.strip()\<close>\<close>

definition lstrip :: "string \<Rightarrow> string" where
  "lstrip s = dropWhile is_space s"

definition rstrip :: "string \<Rightarrow> string" where
  "rstrip s = rev (dropWhile is_space (rev s))"

definition strip :: "string \<Rightarrow> string" where
  "strip s = rstrip (lstrip s)"

text \<open>\<^verbatim>\<open>s.startswith(p)\<close>\<close>

definition startswith :: "string \<Rightarrow> string \<Rightarrow> bool" where
  "startswith s p = (take (length p) s = p)"

text \<open>\<^verbatim>\<open>content.split('\n')\<close>: always at least one line.\<close>

fun split_nl :: "string \<Rightarrow> string list" where
  "split_nl [] = [[]]"
| "split_nl (c # cs) =
     (if c = CHR 0x0A then [] # split_nl cs
      else (case split_nl cs of [] \<Rightarrow> [[c]] | l # ls \<Rightarrow> (c # l) # ls))"

text \<open>\<^verbatim>\<open>'\n'.join(lines)\<close>\<close>

fun join_nl :: "string list \<Rightarrow> string" where
  "join_nl [] = []"
| "join_nl [l] = l"
| "join_nl (l # ls) = l @ CHR 0x0A # join_nl ls"

section \<open>The regular expressions of the source, and Python's matcher on them\<close>

text \<open>
  The patterns of the source are built from the constructs below. A set item is a
  member of a bracket expression or a class escape: \<^verbatim>\<open>[A-Z0-9]\<close> is
  \<open>[Rng A Z, Rng 0 9]\<close>, \<^verbatim>\<open>\s\<close> is \<open>[Space]\<close>, \<^verbatim>\<open>\d\<close> is \<open>[Digit]\<close>, and
  \<^verbatim>\<open>[:$\s]\<close> is \<open>[Ch :, Ch $, Space]\<close> (inside brackets the dollar sign is the
  character itself). Repetition occurs in the source only over a single set.
\<close>

datatype item = Ch char | Rng char char | Space | Digit

datatype re =
    Eps
  | Lit string
  | Set "item list"
  | Star "item list"
  | Plus "item list"
  | Seq re re
  | Alt re re
  | Grp nat re
  | Look re
  | Wb
  | Bol
  | Eol

text \<open>\<open>r?\<close> is greedy: the alternative that takes \<open>r\<close> is tried first.\<close>

definition Opt :: "re \<Rightarrow> re" where
  "Opt r = Alt r Eps"

definition cat :: "re list \<Rightarrow> re" where
  "cat rs = foldr Seq rs Eps"

text \<open>
  Every pattern of the source is compiled with \<^verbatim>\<open>re.IGNORECASE\<close>, and the matcher
  below is Python's in that mode: a literal character matches when both sides agree
  after lower-casing; a set matches a character when the character, its lower case or
  its upper case is in the set.
\<close>

fun item_has :: "item \<Rightarrow> char \<Rightarrow> bool" where
  "item_has (Ch c) x = (x = c)"
| "item_has (Rng lo hi) x = ((of_char lo :: nat) \<le> of_char x \<and> (of_char x :: nat) \<le> of_char hi)"
| "item_has Space x = is_space x"
| "item_has Digit x = is_digit x"

definition in_set :: "item list \<Rightarrow> char \<Rightarrow> bool" where
  "in_set its x =
     list_ex (\<lambda>it. item_has it x \<or> item_has it (to_lower x) \<or> item_has it (to_upper x)) its"

definition lit_eq :: "char \<Rightarrow> char \<Rightarrow> bool" where
  "lit_eq c x = (to_lower x = to_lower c)"

text \<open>
  A position in the subject string: the characters already passed (last one first),
  the characters still ahead, and the groups captured so far.
\<close>

type_synonym mstate = "string \<times> string \<times> (nat \<Rightarrow> string option)"

text \<open>
  The matcher backtracks as Python's does, with the rest of the pattern as the
  continuation \<open>k\<close>: a repetition takes as many characters as it can and gives them
  back one at a time while the continuation fails.
\<close>

fun many :: "(char \<Rightarrow> bool) \<Rightarrow> (mstate \<Rightarrow> 'a option) \<Rightarrow> mstate \<Rightarrow> 'a option" where
  "many P k (b, [], g) = k (b, [], g)"
| "many P k (b, x # xs, g) =
     (if P x
      then (case many P k (x # b, xs, g) of Some r \<Rightarrow> Some r | None \<Rightarrow> k (b, x # xs, g))
      else k (b, x # xs, g))"

fun one :: "(char \<Rightarrow> bool) \<Rightarrow> (mstate \<Rightarrow> 'a option) \<Rightarrow> mstate \<Rightarrow> 'a option" where
  "one P k (b, [], g) = None"
| "one P k (b, x # xs, g) = (if P x then k (x # b, xs, g) else None)"

fun lits :: "string \<Rightarrow> (mstate \<Rightarrow> 'a option) \<Rightarrow> mstate \<Rightarrow> 'a option" where
  "lits [] k st = k st"
| "lits (c # cs) k st = one (lit_eq c) (lits cs k) st"

text \<open>\<^verbatim>\<open>\b\<close>: exactly one of the two neighbours is a word character.\<close>

fun at_boundary :: "mstate \<Rightarrow> bool" where
  "at_boundary (b, s, g) =
     ((case b of [] \<Rightarrow> False | c # _ \<Rightarrow> is_word c) \<noteq> (case s of [] \<Rightarrow> False | c # _ \<Rightarrow> is_word c))"

text \<open>\<^verbatim>\<open>$\<close> without \<^verbatim>\<open>re.MULTILINE\<close>: the end, or just before a final line feed.\<close>

fun at_end :: "mstate \<Rightarrow> bool" where
  "at_end (b, s, g) = (s = [] \<or> s = [CHR 0x0A])"

fun at_start :: "mstate \<Rightarrow> bool" where
  "at_start (b, s, g) = (b = [])"

text \<open>The text a group has taken, between the position where it began and where it ended.\<close>

fun close_grp :: "nat \<Rightarrow> mstate \<Rightarrow> mstate \<Rightarrow> mstate" where
  "close_grp n (b0, s0, g0) (b, s, g) = (b, s, g(n \<mapsto> rev (take (length b - length b0) b)))"

primrec bt :: "re \<Rightarrow> (mstate \<Rightarrow> mstate option) \<Rightarrow> mstate \<Rightarrow> mstate option" where
  "bt Eps k st = k st"
| "bt (Lit cs) k st = lits cs k st"
| "bt (Set its) k st = one (in_set its) k st"
| "bt (Star its) k st = many (in_set its) k st"
| "bt (Plus its) k st = one (in_set its) (many (in_set its) k) st"
| "bt (Seq r1 r2) k st = bt r1 (bt r2 k) st"
| "bt (Alt r1 r2) k st = (case bt r1 k st of Some m \<Rightarrow> Some m | None \<Rightarrow> bt r2 k st)"
| "bt (Grp n r) k st = bt r (\<lambda>st'. k (close_grp n st st')) st"
| "bt (Look r) k st = (case bt r Some st of Some m \<Rightarrow> k st | None \<Rightarrow> None)"
| "bt Wb k st = (if at_boundary st then k st else None)"
| "bt Bol k st = (if at_start st then k st else None)"
| "bt Eol k st = (if at_end st then k st else None)"

text \<open>\<^verbatim>\<open>re.match(pattern, s, re.IGNORECASE)\<close>: a match that begins at the start of \<open>s\<close>.\<close>

definition re_match :: "re \<Rightarrow> string \<Rightarrow> mstate option" where
  "re_match r s = bt r Some ([], s, Map.empty)"

text \<open>\<^verbatim>\<open>match.group(n)\<close>\<close>

fun group :: "mstate \<Rightarrow> nat \<Rightarrow> string option" where
  "group (b, s, g) n = g n"

text \<open>
  The text of a group for the places where the source concatenates it. The groups the
  source concatenates (line 78) are not optional in their pattern, so they have taken
  part in every match.
\<close>

definition group_text :: "mstate \<Rightarrow> nat \<Rightarrow> string" where
  "group_text m n = (case group m n of Some t \<Rightarrow> t | None \<Rightarrow> [])"

text \<open>\<^verbatim>\<open>re.search(pattern, s, re.IGNORECASE)\<close>: the first position where a match begins.\<close>

fun search_from :: "re \<Rightarrow> string \<Rightarrow> string \<Rightarrow> mstate option" where
  "search_from r b [] = bt r Some (b, [], Map.empty)"
| "search_from r b (x # xs) =
     (case bt r Some (b, x # xs, Map.empty) of
        Some m \<Rightarrow> Some m
      | None \<Rightarrow> search_from r (x # b) xs)"

definition re_search :: "re \<Rightarrow> string \<Rightarrow> mstate option" where
  "re_search r s = search_from r [] s"

text \<open>
  A match never moves backwards: whatever the continuation is given lies at or after
  the position where the pattern began. The substitution loop below terminates for this
  reason.
\<close>

lemma many_shrinks:
  "many P k (b, s, g) = Some m \<Longrightarrow>
     \<exists>b' s' g'. length s' \<le> length s \<and> k (b', s', g') = Some m"
proof (induction s arbitrary: b)
  case Nil
  then show ?case by auto
next
  case (Cons x xs)
  show ?case
  proof (cases "P x \<and> many P k (x # b, xs, g) \<noteq> None")
    case True
    then obtain r where r: "many P k (x # b, xs, g) = Some r" by auto
    with Cons.prems True have "many P k (x # b, xs, g) = Some m" by simp
    from Cons.IH [OF this] obtain b' s' g'
      where "length s' \<le> length xs" "k (b', s', g') = Some m" by blast
    then have "length s' \<le> length (x # xs) \<and> k (b', s', g') = Some m" by simp
    then show ?thesis by blast
  next
    case False
    with Cons.prems have "k (b, x # xs, g) = Some m" by (auto split: if_splits)
    then show ?thesis by blast
  qed
qed

lemma one_shrinks:
  "one P k (b, s, g) = Some m \<Longrightarrow>
     \<exists>b' s' g'. length s' < length s \<and> k (b', s', g') = Some m"
  by (cases s) (auto split: if_splits)

lemma lits_shrinks:
  "lits cs k (b, s, g) = Some m \<Longrightarrow>
     \<exists>b' s' g'. length s' \<le> length s \<and> k (b', s', g') = Some m"
proof (induction cs arbitrary: b s g)
  case Nil
  then show ?case by auto
next
  case (Cons c cs)
  from Cons.prems have "one (lit_eq c) (lits cs k) (b, s, g) = Some m" by simp
  from one_shrinks [OF this] obtain b1 s1 g1
    where 1: "length s1 < length s" "lits cs k (b1, s1, g1) = Some m" by blast
  from Cons.IH [OF 1(2)] 1(1) show ?case by (meson le_trans less_imp_le)
qed

lemma bt_shrinks:
  "bt r k (b, s, g) = Some m \<Longrightarrow>
     \<exists>b' s' g'. length s' \<le> length s \<and> k (b', s', g') = Some m"
proof (induction r arbitrary: k b s g m)
  case Eps
  then show ?case by auto
next
  case (Lit cs)
  then show ?case using lits_shrinks by simp
next
  case (Set its)
  then show ?case using one_shrinks [of "in_set its" k b s g m] by (auto intro: less_imp_le)
next
  case (Star its)
  then show ?case using many_shrinks by simp
next
  case (Plus its)
  from Plus have "one (in_set its) (many (in_set its) k) (b, s, g) = Some m" by simp
  from one_shrinks [OF this] obtain b1 s1 g1
    where 1: "length s1 < length s" "many (in_set its) k (b1, s1, g1) = Some m" by blast
  from many_shrinks [OF 1(2)] 1(1) show ?case by (meson le_trans less_imp_le)
next
  case (Seq r1 r2)
  from Seq.prems have "bt r1 (bt r2 k) (b, s, g) = Some m" by simp
  from Seq.IH(1) [OF this] obtain b1 s1 g1
    where 1: "length s1 \<le> length s" "bt r2 k (b1, s1, g1) = Some m" by blast
  from Seq.IH(2) [OF 1(2)] 1(1) show ?case by (meson le_trans)
next
  case (Alt r1 r2)
  then show ?case by (auto split: option.splits)
next
  case (Grp n r)
  from Grp.prems have "bt r (\<lambda>st'. k (close_grp n (b, s, g) st')) (b, s, g) = Some m" by simp
  from Grp.IH [OF this] show ?case by auto
next
  case (Look r)
  then show ?case by (auto split: option.splits)
next
  case Wb
  then show ?case by (auto split: if_splits)
next
  case Bol
  then show ?case by (auto split: if_splits)
next
  case Eol
  then show ?case by (auto split: if_splits)
qed

text \<open>
  \<^verbatim>\<open>re.sub(pattern, repl, s, flags=re.IGNORECASE)\<close> for a replacement \<open>repl\<close> without a
  backslash, which Python inserts as it stands (the short names of this program are
  letters and digits). The loop is the interpreter's: search from the current position,
  copy the characters passed over, insert the replacement, go on behind the match; after
  an empty match the next match at the same position must not be empty (\<open>adv\<close>).
\<close>

fun advanced :: "bool \<Rightarrow> string \<Rightarrow> mstate \<Rightarrow> mstate option" where
  "advanced adv s (b', s', g') = (if adv \<and> length s' = length s then None else Some (b', s', g'))"

function sub_loop :: "re \<Rightarrow> string \<Rightarrow> bool \<Rightarrow> string \<Rightarrow> string \<Rightarrow> string" where
  "sub_loop r repl adv b s =
     (case bt r (advanced adv s) (b, s, Map.empty) of
        Some (b', s', g') \<Rightarrow> repl @ sub_loop r repl (length s' = length s) b' s'
      | None \<Rightarrow> (case s of [] \<Rightarrow> [] | x # xs \<Rightarrow> x # sub_loop r repl False (x # b) xs))"
  by pat_completeness auto
termination
proof (relation "measure (\<lambda>(r, repl, adv, b, s). 2 * length s + (if adv then 0 else 1))",
    goal_cases)
  case 1
  show ?case by simp
next
  case (2 r repl adv b s x xs)
  then show ?case by auto
next
  case (3 r repl adv b s x2 b' y s' g')
  from bt_shrinks [OF 3(1)] obtain b1 s1 g1
    where 1: "length s1 \<le> length s" "advanced adv s (b1, s1, g1) = Some x2" by blast
  from 1(2) 3(2,3) have "s1 = s'" and "\<not> (adv \<and> length s' = length s)"
    by (auto split: if_splits)
  with 1(1) show ?case by auto
qed

definition re_sub :: "re \<Rightarrow> string \<Rightarrow> string \<Rightarrow> string" where
  "re_sub r repl s = sub_loop r repl False [] s"

section \<open>Dictionaries\<close>

text \<open>
  A Python \<^verbatim>\<open>dict\<close> keeps its keys in the order of their first insertion, and
  \<^verbatim>\<open>items()\<close> runs through them in that order: an association list with one entry
  for each key.
\<close>

type_synonym 'v dict = "(string \<times> 'v) list"

definition dict_get :: "'v dict \<Rightarrow> string \<Rightarrow> 'v option" where
  "dict_get d k = map_of d k"

fun dict_set :: "'v dict \<Rightarrow> string \<Rightarrow> 'v \<Rightarrow> 'v dict" where
  "dict_set [] k v = [(k, v)]"
| "dict_set ((k', v') # d) k v = (if k' = k then (k, v) # d else (k', v') # dict_set d k v)"

definition keys :: "'v dict \<Rightarrow> string list" where
  "keys d = map fst d"

definition vals :: "'v dict \<Rightarrow> 'v list" where
  "vals d = map snd d"

section \<open>The patterns of \<^verbatim>\<open>analyze_and_shorten.py\<close>\<close>

text \<open>\<^verbatim>\<open>re.escape(name)\<close> followed by matching is matching the text of \<open>name\<close>: \<open>Lit name\<close>.\<close>

text \<open>Line 11: \<^verbatim>\<open>^\s*(\d+\s+)?PROC\s+([A-Z][A-Z0-9]*)\s*$\<close>\<close>

definition def_pattern :: re where
  "def_pattern =
     cat [Bol, Star [Space], Opt (Grp 1 (cat [Plus [Digit], Plus [Space]])),
          Lit ''PROC'', Plus [Space],
          Grp 2 (cat [Set [Rng CHR ''A'' CHR ''Z''],
                      Star [Rng CHR ''A'' CHR ''Z'', Rng CHR ''0'' CHR ''9'']]),
          Star [Space], Eol]"

text \<open>Line 36: \<^verbatim>\<open>\b\<close> name \<^verbatim>\<open>\b(?=\s*[:$\s]|$)\<close>\<close>

definition call_pattern :: "string \<Rightarrow> re" where
  "call_pattern proc_name =
     cat [Wb, Lit proc_name, Wb,
          Look (Alt (cat [Star [Space], Set [Ch CHR '':'', Ch CHR ''$'', Space]]) Eol)]"

text \<open>Line 39: \<^verbatim>\<open>^\s*(\d+\s+)?PROC\s+\<close> name \<^verbatim>\<open>\s*$\<close>\<close>

definition own_def_pattern :: "string \<Rightarrow> re" where
  "own_def_pattern proc_name =
     cat [Bol, Star [Space], Opt (Grp 1 (cat [Plus [Digit], Plus [Space]])),
          Lit ''PROC'', Plus [Space], Lit proc_name, Star [Space], Eol]"

text \<open>Line 75: \<^verbatim>\<open>^(\s*\d*\s*PROC\s+)\<close> name \<^verbatim>\<open>(\s*)$\<close>\<close>

definition proc_pattern :: "string \<Rightarrow> re" where
  "proc_pattern old_name =
     cat [Bol, Grp 1 (cat [Star [Space], Star [Digit], Star [Space], Lit ''PROC'', Plus [Space]]),
          Lit old_name, Grp 2 (Star [Space]), Eol]"

text \<open>Line 84: \<^verbatim>\<open>\b\<close> name \<^verbatim>\<open>\b\<close>\<close>

definition word_pattern :: "string \<Rightarrow> re" where
  "word_pattern old_name = cat [Wb, Lit old_name, Wb]"

section \<open>\<^verbatim>\<open>find_all_procedures\<close>\<close>

text \<open>
  The name a line declares: group 2 of the match of line 11 on the stripped line, in
  upper case; \<open>None\<close> when the line does not match.
\<close>

definition declared :: "string \<Rightarrow> string option" where
  "declared line =
     (case re_match def_pattern (strip line) of
        None \<Rightarrow> None
      | Some m \<Rightarrow> map_option upper (group m 2))"

text \<open>The loop over \<^verbatim>\<open>enumerate(lines)\<close>, from index \<open>i\<close> on.\<close>

fun scan_lines :: "nat \<Rightarrow> string list \<Rightarrow> nat list dict \<Rightarrow> nat list dict" where
  "scan_lines i [] procedures = procedures"
| "scan_lines i (line # ls) procedures =
     (case declared line of
        None \<Rightarrow> scan_lines (Suc i) ls procedures
      | Some proc_name \<Rightarrow>
          (case dict_get procedures proc_name of
             None \<Rightarrow> scan_lines (Suc i) ls (dict_set procedures proc_name [i])
           | Some found \<Rightarrow> scan_lines (Suc i) ls (dict_set procedures proc_name (found @ [i]))))"

definition find_all_procedures :: "string \<Rightarrow> nat list dict" where
  "find_all_procedures content = scan_lines 0 (split_nl content) []"

section \<open>\<^verbatim>\<open>find_procedure_calls\<close>\<close>

text \<open>Whether line 37 and line 39 let the line count as a call of \<open>proc_name\<close>.\<close>

definition is_call :: "string \<Rightarrow> string \<Rightarrow> bool" where
  "is_call proc_name line =
     (re_search (call_pattern proc_name) line \<noteq> None
      \<and> re_match (own_def_pattern proc_name) (strip line) = None)"

text \<open>The inner loop over \<^verbatim>\<open>enumerate(lines)\<close> for one name; \<open>found\<close> is \<^verbatim>\<open>calls[proc_name]\<close>.\<close>

fun call_lines :: "string \<Rightarrow> nat \<Rightarrow> string list \<Rightarrow> nat list \<Rightarrow> nat list" where
  "call_lines proc_name i [] found = found"
| "call_lines proc_name i (line # ls) found =
     (let stripped = strip line in
      if stripped = [] \<or> startswith stripped ''#'' then call_lines proc_name (Suc i) ls found
      else if is_call proc_name line then call_lines proc_name (Suc i) ls (found @ [i])
      else call_lines proc_name (Suc i) ls found)"

text \<open>
  The outer loop over the set \<^verbatim>\<open>proc_names\<close>, given here as the list of its members in
  the order the interpreter happens to run through them.
\<close>

fun calls_loop :: "string list \<Rightarrow> string list \<Rightarrow> nat list dict \<Rightarrow> nat list dict" where
  "calls_loop lines [] calls = calls"
| "calls_loop lines (proc_name # ns) calls =
     calls_loop lines ns (dict_set calls proc_name (call_lines proc_name 0 lines []))"

definition find_procedure_calls :: "string \<Rightarrow> string list \<Rightarrow> nat list dict" where
  "find_procedure_calls content proc_names = calls_loop (split_nl content) proc_names []"

section \<open>\<^verbatim>\<open>generate_short_names\<close>\<close>

text \<open>
  The loop over \<^verbatim>\<open>range(1, len(proc_name) + 1)\<close>: the first prefix that is not in
  \<^verbatim>\<open>used_names\<close>, or \<open>None\<close> when the loop runs to its end (the \<^verbatim>\<open>else\<close> of the
  \<^verbatim>\<open>for\<close>).
\<close>

fun try_prefixes :: "string \<Rightarrow> string set \<Rightarrow> nat list \<Rightarrow> string option" where
  "try_prefixes proc_name used_names [] = None"
| "try_prefixes proc_name used_names (l # ls) =
     (let candidate = take l proc_name in
      if candidate \<notin> used_names then Some candidate
      else try_prefixes proc_name used_names ls)"

text \<open>The loop over the sorted names; the state is \<^verbatim>\<open>(short_names, used_names)\<close>.\<close>

fun assign_loop :: "string list \<Rightarrow> string dict \<times> string set \<Rightarrow> string dict \<times> string set" where
  "assign_loop [] st = st"
| "assign_loop (proc_name # ns) (short_names, used_names) =
     (case try_prefixes proc_name used_names [1 ..< Suc (length proc_name)] of
        Some candidate \<Rightarrow>
          assign_loop ns (dict_set short_names proc_name candidate, insert candidate used_names)
      | None \<Rightarrow>
          assign_loop ns (dict_set short_names proc_name proc_name, insert proc_name used_names))"

text \<open>\<^verbatim>\<open>sorted(proc_names, key=lambda x: (len(x), x))\<close>\<close>

definition sorted_procs :: "string list \<Rightarrow> string list" where
  "sorted_procs proc_names = sort_key (\<lambda>x. (length x, x)) proc_names"

definition generate_short_names :: "string list \<Rightarrow> string dict" where
  "generate_short_names proc_names = fst (assign_loop (sorted_procs proc_names) ([], {}))"

section \<open>\<^verbatim>\<open>replace_procedures_and_calls\<close>\<close>

text \<open>
  The inner loop over \<^verbatim>\<open>name_mapping.items()\<close> for one line. \<open>line\<close> is the loop
  variable of the outer loop and keeps the original text of the line; \<open>cur\<close> is
  \<^verbatim>\<open>lines[i]\<close>, which the loop rewrites. The patterns of lines 75 and 82 are tested on
  \<open>line\<close>; the substitution of line 85 works on \<open>cur\<close>.
\<close>

fun rewrite_line :: "string \<Rightarrow> string dict \<Rightarrow> string \<Rightarrow> string" where
  "rewrite_line line [] cur = cur"
| "rewrite_line line ((old_name, new_name) # ms) cur =
     (case re_match (proc_pattern old_name) line of
        Some m \<Rightarrow>
          rewrite_line line ms
            (group_text m 1 @ new_name @ group_text m 2)
      | None \<Rightarrow>
          if \<not> startswith (strip line) ''#'' \<and> strip line \<noteq> []
          then rewrite_line line ms (re_sub (word_pattern old_name) new_name cur)
          else rewrite_line line ms cur)"

definition rewrite_lines :: "string list \<Rightarrow> string dict \<Rightarrow> string list" where
  "rewrite_lines lines name_mapping = map (\<lambda>line. rewrite_line line name_mapping line) lines"

definition replace_procedures_and_calls :: "string \<Rightarrow> string dict \<Rightarrow> string" where
  "replace_procedures_and_calls content name_mapping =
     join_nl (rewrite_lines (split_nl content) name_mapping)"

section \<open>The Short-Name Allocator\<close>

lemma dict_set_new: "k \<notin> set (keys d) \<Longrightarrow> dict_set d k v = d @ [(k, v)]"
  by (induction d) (auto simp: keys_def)

lemma try_prefixes_Some:
  "try_prefixes nm used ls = Some c \<Longrightarrow>
     \<exists>pre l post. ls = pre @ l # post \<and> c = take l nm \<and> c \<notin> used \<and> (\<forall>l' \<in> set pre. take l' nm \<in> used)"
proof (induction ls)
  case Nil
  then show ?case by simp
next
  case (Cons a ls)
  show ?case
  proof (cases "take a nm \<in> used")
    case True
    with Cons.prems have "try_prefixes nm used ls = Some c" by simp
    from Cons.IH [OF this] obtain pre l post where
      "ls = pre @ l # post" "c = take l nm" "c \<notin> used" "\<forall>l' \<in> set pre. take l' nm \<in> used" by blast
    with True have "a # ls = (a # pre) @ l # post \<and> c = take l nm \<and> c \<notin> used \<and> (\<forall>l' \<in> set (a # pre). take l' nm \<in> used)"
      by simp
    then show ?thesis by blast
  next
    case False
    with Cons.prems have "c = take a nm" by simp
    with False have "a # ls = [] @ a # ls \<and> c = take a nm \<and> c \<notin> used \<and> (\<forall>l' \<in> set []. take l' nm \<in> used)"
      by simp
    then show ?thesis by blast
  qed
qed

lemma try_prefixes_None:
  "try_prefixes nm used ls = None \<Longrightarrow> l \<in> set ls \<Longrightarrow> take l nm \<in> used"
  by (induction ls) (auto simp: Let_def split: if_splits)

lemma upt_split:
  assumes "[a ..< b] = pre @ l # post"
  shows "a \<le> l \<and> l < b \<and> set pre = {a ..< l}"
proof -
  have len: "b - a = Suc (length pre + length post)"
    using arg_cong [OF assms, of length] by simp
  then have lt: "a + length pre < b" by arith
  have "[a ..< b] ! length pre = l" by (simp add: assms)
  with lt have l: "l = a + length pre" by simp
  have "pre = take (length pre) [a ..< b]" by (simp add: assms)
  also have "\<dots> = [a ..< a + length pre]" using lt by (simp add: take_upt)
  finally have "set pre = {a ..< l}" using l by (metis atLeastLessThan_upt)
  with l lt show ?thesis by simp
qed

text \<open>
  What one round of the loop assigns: the prefix found, or the full name in the
  \<^verbatim>\<open>else\<close> branch.
\<close>

definition chosen :: "string \<Rightarrow> string set \<Rightarrow> string" where
  "chosen nm used =
     (case try_prefixes nm used [1 ..< Suc (length nm)] of Some c \<Rightarrow> c | None \<Rightarrow> nm)"

lemma assign_loop_step:
  "assign_loop (nm # ns) (sn, used) =
     assign_loop ns (dict_set sn nm (chosen nm used), insert (chosen nm used) used)"
  by (simp add: chosen_def split: option.splits)

lemma assign_loop_append:
  "assign_loop (xs @ ys) st = assign_loop ys (assign_loop xs st)"
proof (induction xs arbitrary: st)
  case Nil
  show ?case by simp
next
  case (Cons x xs)
  obtain sn used where st: "st = (sn, used)" by (cases st)
  show ?case unfolding st append_Cons assign_loop_step by (rule Cons.IH)
qed

lemma full_name_found:
  assumes "nm \<noteq> []" "nm \<notin> used"
  shows "try_prefixes nm used [1 ..< Suc (length nm)] \<noteq> None"
proof
  assume "try_prefixes nm used [1 ..< Suc (length nm)] = None"
  moreover have "length nm \<in> set [1 ..< Suc (length nm)]" using assms(1) by (cases nm) auto
  ultimately have "take (length nm) nm \<in> used" by (rule try_prefixes_None)
  with assms(2) show False by simp
qed

lemma chosen_props:
  assumes "nm \<notin> used"
  shows "chosen nm used \<notin> used"
    and "chosen nm used = take (length (chosen nm used)) nm"
    and "nm \<noteq> [] \<Longrightarrow> chosen nm used \<noteq> []"
    and "1 \<le> j \<Longrightarrow> j < length (chosen nm used) \<Longrightarrow> take j (chosen nm used) \<in> used"
proof -
  let ?t = "try_prefixes nm used [1 ..< Suc (length nm)]"
  show "chosen nm used \<notin> used"
  proof (cases ?t)
    case None
    with assms show ?thesis by (simp add: chosen_def)
  next
    case (Some c)
    from try_prefixes_Some [OF Some] have "c \<notin> used" by blast
    with Some show ?thesis by (simp add: chosen_def)
  qed
  show "chosen nm used = take (length (chosen nm used)) nm"
  proof (cases ?t)
    case None
    then show ?thesis by (simp add: chosen_def)
  next
    case (Some c)
    from try_prefixes_Some [OF Some] obtain l where "c = take l nm" by blast
    then have "c = take (length c) nm" by (simp add: min_def)
    with Some show ?thesis by (simp add: chosen_def)
  qed
  show "chosen nm used \<noteq> []" if "nm \<noteq> []"
  proof (cases ?t)
    case None
    with that show ?thesis by (simp add: chosen_def)
  next
    case (Some c)
    from try_prefixes_Some [OF Some] obtain pre l post where
      *: "[1 ..< Suc (length nm)] = pre @ l # post" "c = take l nm" by blast
    from upt_split [OF *(1)] have "1 \<le> l" by simp
    with * that Some show ?thesis by (cases nm) (auto simp: chosen_def)
  qed
  show "take j (chosen nm used) \<in> used" if j: "1 \<le> j" "j < length (chosen nm used)"
  proof (cases ?t)
    case None
    then have c: "chosen nm used = nm" by (simp add: chosen_def)
    with j have "j \<in> set [1 ..< Suc (length nm)]" by simp
    from try_prefixes_None [OF None this] c show ?thesis by simp
  next
    case (Some c)
    then have c: "chosen nm used = c" by (simp add: chosen_def)
    from try_prefixes_Some [OF Some] obtain pre l post where
      *: "[1 ..< Suc (length nm)] = pre @ l # post" "c = take l nm"
         "\<forall>l' \<in> set pre. take l' nm \<in> used" by blast
    from upt_split [OF *(1)] have pre: "set pre = {1 ..< l}" by simp
    from j c *(2) have "j < l" by simp
    with j pre have "j \<in> set pre" by simp
    with *(3) have "take j nm \<in> used" by blast
    moreover from \<open>j < l\<close> have "take j c = take j nm" by (simp add: *(2) min_def)
    ultimately show ?thesis by (simp add: c)
  qed
qed

text \<open>
  The invariant of the loop: the keys are distinct, \<^verbatim>\<open>used_names\<close> is the set of the
  values, the values are distinct, and every value is a prefix of its key, non-empty when
  the key is, all of whose shorter non-empty prefixes are values too.
\<close>

definition alloc_inv :: "string dict \<Rightarrow> string set \<Rightarrow> bool" where
  "alloc_inv sn used \<longleftrightarrow>
     distinct (keys sn) \<and> used = set (vals sn) \<and> distinct (vals sn) \<and>
     (\<forall>(k, v) \<in> set sn. v = take (length v) k \<and> (k \<noteq> [] \<longrightarrow> v \<noteq> []) \<and>
        (\<forall>j. 1 \<le> j \<and> j < length v \<longrightarrow> take j v \<in> set (vals sn)))"

lemma unclaimed_full_name:
  assumes inv: "alloc_inv sn used"
    and new: "nm \<notin> set (keys sn)"
    and len: "\<forall>k \<in> set (keys sn). length k \<le> length nm"
  shows "nm \<notin> used"
proof
  assume "nm \<in> used"
  with inv obtain k where kv: "(k, nm) \<in> set sn" by (auto simp: alloc_inv_def vals_def)
  with inv have p: "nm = take (length nm) k" by (auto simp: alloc_inv_def)
  from kv have k: "k \<in> set (keys sn)" by (force simp: keys_def)
  with len have "length k \<le> length nm" by blast
  with p have "nm = k" by simp
  with k new show False by simp
qed

lemma alloc_inv_step:
  assumes inv: "alloc_inv sn used"
    and new: "nm \<notin> set (keys sn)"
    and len: "\<forall>k \<in> set (keys sn). length k \<le> length nm"
  shows "alloc_inv (sn @ [(nm, chosen nm used)]) (insert (chosen nm used) used)"
proof -
  from unclaimed_full_name [OF assms] have u: "nm \<notin> used" .
  note c = chosen_props [OF u]
  from inv have used: "used = set (vals sn)" by (simp add: alloc_inv_def)
  show ?thesis
    unfolding alloc_inv_def
  proof (intro conjI)
    show "distinct (keys (sn @ [(nm, chosen nm used)]))"
      using inv new by (simp add: alloc_inv_def keys_def)
    show "insert (chosen nm used) used = set (vals (sn @ [(nm, chosen nm used)]))"
      using used by (simp add: vals_def)
    show "distinct (vals (sn @ [(nm, chosen nm used)]))"
      using inv c(1) used by (simp add: alloc_inv_def vals_def)
    show "\<forall>(k, v) \<in> set (sn @ [(nm, chosen nm used)]).
            v = take (length v) k \<and> (k \<noteq> [] \<longrightarrow> v \<noteq> []) \<and>
            (\<forall>j. 1 \<le> j \<and> j < length v \<longrightarrow> take j v \<in> set (vals (sn @ [(nm, chosen nm used)])))"
    proof (clarify, goal_cases)
      case (1 k v)
      show ?case
      proof (cases "(k, v) \<in> set sn")
        case True
        with inv show ?thesis by (fastforce simp: alloc_inv_def vals_def)
      next
        case False
        with 1 have kv: "k = nm" "v = chosen nm used" by auto
        show ?thesis
          unfolding kv using c(2) c(3) c(4) used by (auto simp: vals_def)
      qed
    qed
  qed
qed

lemma assign_loop_inv:
  assumes "alloc_inv sn used"
    and "distinct (keys sn @ ns)"
    and "sorted (map length (keys sn @ ns))"
  shows "alloc_inv (fst (assign_loop ns (sn, used))) (snd (assign_loop ns (sn, used)))
         \<and> keys (fst (assign_loop ns (sn, used))) = keys sn @ ns"
  using assms
proof (induction ns arbitrary: sn used)
  case Nil
  then show ?case by simp
next
  case (Cons nm ns)
  from Cons.prems(2) have new: "nm \<notin> set (keys sn)" by auto
  from Cons.prems(3) have len: "\<forall>k \<in> set (keys sn). length k \<le> length nm"
    by (auto simp: sorted_append)
  have set: "dict_set sn nm (chosen nm used) = sn @ [(nm, chosen nm used)]"
    using new by (rule dict_set_new)
  have k: "keys (sn @ [(nm, chosen nm used)]) = keys sn @ [nm]" by (simp add: keys_def)
  have "alloc_inv (sn @ [(nm, chosen nm used)]) (insert (chosen nm used) used)"
    using Cons.prems(1) new len by (rule alloc_inv_step)
  from Cons.IH [OF this] Cons.prems(2,3)
  show ?case unfolding assign_loop_step set k by simp
qed

lemma alloc_inv_empty: "alloc_inv [] {}"
  by (simp add: alloc_inv_def keys_def vals_def)

lemma sorted_key_fst:
  "sorted (map (\<lambda>x. (f x :: nat, x :: string)) xs) \<Longrightarrow> sorted (map f xs)"
  by (induction xs) (auto simp: less_eq_prod_def)

lemma sorted_procs_props:
  "set (sorted_procs names) = set names"
  "distinct (sorted_procs names) = distinct names"
  "sorted (map length (sorted_procs names))"
proof -
  show "set (sorted_procs names) = set names" by (simp add: sorted_procs_def)
  show "distinct (sorted_procs names) = distinct names" by (simp add: sorted_procs_def)
  have "sorted (map (\<lambda>x. (length x, x)) (sorted_procs names))"
    unfolding sorted_procs_def by (rule sorted_sort_key)
  then show "sorted (map length (sorted_procs names))"
    by (rule sorted_key_fst)
qed

lemma generate_short_names_inv:
  assumes "distinct proc_names"
  shows "alloc_inv (generate_short_names proc_names)
           (snd (assign_loop (sorted_procs proc_names) ([], {})))"
    and "keys (generate_short_names proc_names) = sorted_procs proc_names"
proof -
  have *: "alloc_inv (fst (assign_loop (sorted_procs proc_names) ([], {})))
       (snd (assign_loop (sorted_procs proc_names) ([], {})))
     \<and> keys (fst (assign_loop (sorted_procs proc_names) ([], {}))) = sorted_procs proc_names"
    using assign_loop_inv [OF alloc_inv_empty, of "sorted_procs proc_names"] assms
    by (simp add: keys_def sorted_procs_props)
  from * show "alloc_inv (generate_short_names proc_names)
           (snd (assign_loop (sorted_procs proc_names) ([], {})))"
    by (simp add: generate_short_names_def)
  from * show "keys (generate_short_names proc_names) = sorted_procs proc_names"
    by (simp add: generate_short_names_def keys_def)
qed

lemma dict_get_iff:
  "distinct (keys d) \<Longrightarrow> dict_get d k = Some v \<longleftrightarrow> (k, v) \<in> set d"
  by (auto simp: dict_get_def keys_def dest: map_of_SomeD)

text \<open>
  Claim C5. For pairwise distinct, non-empty procedure names, \<^verbatim>\<open>generate_short_names\<close>
  maps every name to a non-empty prefix of itself (so the short name is at least one
  character and at most as long as the name), and no two distinct names get the same
  short name.
\<close>

theorem short_names_prefix_injective:
  assumes "distinct proc_names" and "[] \<notin> set proc_names"
  shows "(\<forall>n \<in> set proc_names. \<exists>s. dict_get (generate_short_names proc_names) n = Some s
            \<and> s = take (length s) n \<and> 1 \<le> length s \<and> length s \<le> length n)
       \<and> (\<forall>n1 \<in> set proc_names. \<forall>n2 \<in> set proc_names. n1 \<noteq> n2 \<longrightarrow>
            dict_get (generate_short_names proc_names) n1
              \<noteq> dict_get (generate_short_names proc_names) n2)"
proof -
  let ?m = "generate_short_names proc_names"
  note inv = generate_short_names_inv [OF assms(1)]
  from inv(1) have dk: "distinct (keys ?m)" and dv: "distinct (vals ?m)"
    by (simp_all add: alloc_inv_def)
  have ks: "set (keys ?m) = set proc_names" by (simp add: inv(2) sorted_procs_props)
  have ex: "\<exists>s. (n, s) \<in> set ?m" if "n \<in> set proc_names" for n
    using that ks by (force simp: keys_def)
  have pre: "s = take (length s) n \<and> 1 \<le> length s \<and> length s \<le> length n"
    if "(n, s) \<in> set ?m" for n s
  proof -
    from that have "n \<in> set proc_names" using ks by (force simp: keys_def)
    with assms(2) have ne: "n \<noteq> []" by auto
    from inv(1) that have 1: "s = take (length s) n" and 2: "n \<noteq> [] \<longrightarrow> s \<noteq> []"
      by (auto simp: alloc_inv_def)
    from 2 ne have "1 \<le> length s" by (cases s) auto
    moreover have "length s \<le> length n"
    proof -
      from 1 have "length s = length (take (length s) n)" by simp
      then show ?thesis by simp
    qed
    ultimately show ?thesis using 1 by simp
  qed
  have A: "\<forall>n \<in> set proc_names. \<exists>s. dict_get ?m n = Some s
            \<and> s = take (length s) n \<and> 1 \<le> length s \<and> length s \<le> length n"
  proof
    fix n assume "n \<in> set proc_names"
    from ex [OF this] obtain s where s: "(n, s) \<in> set ?m" ..
    with dk have "dict_get ?m n = Some s" by (simp add: dict_get_iff)
    with pre [OF s] show "\<exists>s. dict_get ?m n = Some s
            \<and> s = take (length s) n \<and> 1 \<le> length s \<and> length s \<le> length n" by blast
  qed
  have B: "\<forall>n1 \<in> set proc_names. \<forall>n2 \<in> set proc_names. n1 \<noteq> n2 \<longrightarrow>
            dict_get ?m n1 \<noteq> dict_get ?m n2"
  proof (intro ballI impI notI)
    fix n1 n2 assume n: "n1 \<in> set proc_names" "n2 \<in> set proc_names" "n1 \<noteq> n2"
      and eq: "dict_get ?m n1 = dict_get ?m n2"
    from ex [OF n(1)] obtain s1 where s1: "(n1, s1) \<in> set ?m" ..
    from ex [OF n(2)] obtain s2 where s2: "(n2, s2) \<in> set ?m" ..
    from s1 dk have "dict_get ?m n1 = Some s1" by (simp add: dict_get_iff)
    moreover from s2 dk have "dict_get ?m n2 = Some s2" by (simp add: dict_get_iff)
    ultimately have "s1 = s2" using eq by simp
    moreover from dv have "inj_on snd (set ?m)" by (simp add: vals_def distinct_map)
    ultimately have "(n1, s1) = (n2, s2)"
      using s1 s2 inj_onD [of snd "set ?m" "(n1, s1)" "(n2, s2)"] by simp
    with n(3) show False by simp
  qed
  from A B show ?thesis by blast
qed

theorem short_names_prefix_injective_witness:
  "distinct [''APRICOT'', ''APPLE''] \<and> [] \<notin> set [''APRICOT'', ''APPLE'']
   \<and> (\<exists>s. dict_get (generate_short_names [''APRICOT'', ''APPLE'']) ''APRICOT'' = Some s
        \<and> s = take (length s) ''APRICOT'' \<and> 1 \<le> length s \<and> length s \<le> length ''APRICOT'')
   \<and> dict_get (generate_short_names [''APRICOT'', ''APPLE'']) ''APRICOT''
        \<noteq> dict_get (generate_short_names [''APRICOT'', ''APPLE'']) ''APPLE''"
proof -
  have h1: "distinct [''APRICOT'', ''APPLE'']" by simp
  have h2: "[] \<notin> set [''APRICOT'', ''APPLE'']" by simp
  from short_names_prefix_injective [OF h1 h2] h1 h2 show ?thesis by simp
qed

text \<open>
  Claim C3. For pairwise distinct names, whenever a name is assigned a short name of
  length \<open>k > 1\<close>, the prefix of length \<open>k - 1\<close> of that short name is the short name of
  another name of the same mapping.
\<close>

theorem short_names_minimal:
  assumes "distinct proc_names"
    and "dict_get (generate_short_names proc_names) n = Some s"
    and "1 < length s"
  shows "\<exists>n'. n' \<noteq> n
           \<and> dict_get (generate_short_names proc_names) n' = Some (take (length s - 1) s)"
proof -
  let ?m = "generate_short_names proc_names"
  note inv = generate_short_names_inv [OF assms(1)]
  from inv(1) have dk: "distinct (keys ?m)" by (simp add: alloc_inv_def)
  from assms(2) dk have ns: "(n, s) \<in> set ?m" by (simp add: dict_get_iff)
  from assms(3) have j: "1 \<le> length s - 1 \<and> length s - 1 < length s" by arith
  from inv(1) ns have "\<forall>j. 1 \<le> j \<and> j < length s \<longrightarrow> take j s \<in> set (vals ?m)"
    by (auto simp: alloc_inv_def)
  with j have "take (length s - 1) s \<in> set (vals ?m)" by blast
  then obtain n' where n': "(n', take (length s - 1) s) \<in> set ?m" by (auto simp: vals_def)
  with dk have g: "dict_get ?m n' = Some (take (length s - 1) s)" by (simp add: dict_get_iff)
  have "n' \<noteq> n"
  proof
    assume "n' = n"
    with g assms(2) have "take (length s - 1) s = s" by simp
    then have "length (take (length s - 1) s) = length s" by (rule arg_cong)
    then have "min (length s) (length s - 1) = length s" by (simp only: length_take)
    with assms(3) show False by arith
  qed
  with g show ?thesis by blast
qed

theorem short_names_minimal_witness:
  "distinct [''APRICOT'', ''APPLE'']
   \<and> dict_get (generate_short_names [''APRICOT'', ''APPLE'']) ''APRICOT'' = Some ''AP''
   \<and> 1 < length ''AP''
   \<and> (\<exists>n'. n' \<noteq> ''APRICOT''
        \<and> dict_get (generate_short_names [''APRICOT'', ''APPLE'']) n' = Some (take (length ''AP'' - 1) ''AP''))"
proof -
  have h1: "distinct [''APRICOT'', ''APPLE'']" by simp
  have h2: "dict_get (generate_short_names [''APRICOT'', ''APPLE'']) ''APRICOT'' = Some ''AP''"
    by code_simp
  have h3: "1 < length ''AP''" by simp
  from short_names_minimal [OF h1 h2 h3] h1 h2 h3 show ?thesis by blast
qed

text \<open>
  Claim C9. For pairwise distinct, non-empty procedure names, at every name \<open>nm\<close> of the
  sorted list (\<open>pre\<close> are the names processed before it), the full name has not been
  claimed by the names before it, and the prefix loop finds a free prefix: the
  \<^verbatim>\<open>else\<close> branch of the \<^verbatim>\<open>for\<close> is not taken.
\<close>

theorem fallback_unreachable:
  assumes "distinct proc_names" and "[] \<notin> set proc_names"
    and "sorted_procs proc_names = pre @ nm # post"
  shows "nm \<notin> snd (assign_loop pre ([], {}))
       \<and> try_prefixes nm (snd (assign_loop pre ([], {}))) [1 ..< Suc (length nm)] \<noteq> None"
proof -
  have d: "distinct (pre @ nm # post)"
    using assms(1) sorted_procs_props(2) [of proc_names] by (simp add: assms(3))
  have s: "sorted (map length (pre @ nm # post))"
    using sorted_procs_props(3) [of proc_names] by (simp add: assms(3))
  have "nm \<in> set (sorted_procs proc_names)" by (simp add: assms(3))
  then have "nm \<in> set proc_names" by (simp add: sorted_procs_props)
  with assms(2) have ne: "nm \<noteq> []" by auto
  have *: "alloc_inv (fst (assign_loop pre ([], {}))) (snd (assign_loop pre ([], {})))
      \<and> keys (fst (assign_loop pre ([], {}))) = pre"
    using assign_loop_inv [OF alloc_inv_empty, of pre] d s
    by (simp add: keys_def sorted_append)
  then have k: "keys (fst (assign_loop pre ([], {}))) = pre" by simp
  have "nm \<notin> snd (assign_loop pre ([], {}))"
  proof (rule unclaimed_full_name)
    show "alloc_inv (fst (assign_loop pre ([], {}))) (snd (assign_loop pre ([], {})))"
      using * by simp
    show "nm \<notin> set (keys (fst (assign_loop pre ([], {}))))" using d by (simp add: k)
    show "\<forall>k \<in> set (keys (fst (assign_loop pre ([], {})))). length k \<le> length nm"
      using s by (simp add: k sorted_append)
  qed
  with full_name_found [OF ne this] show ?thesis by simp
qed

theorem fallback_unreachable_witness:
  "distinct [''APRICOT'', ''APPLE''] \<and> [] \<notin> set [''APRICOT'', ''APPLE'']
   \<and> sorted_procs [''APRICOT'', ''APPLE''] = [''APPLE''] @ ''APRICOT'' # []
   \<and> ''APRICOT'' \<notin> snd (assign_loop [''APPLE''] ([], {}))
   \<and> try_prefixes ''APRICOT'' (snd (assign_loop [''APPLE''] ([], {})))
        [1 ..< Suc (length ''APRICOT'')] \<noteq> None"
proof -
  have h1: "distinct [''APRICOT'', ''APPLE'']" by simp
  have h2: "[] \<notin> set [''APRICOT'', ''APPLE'']" by simp
  have h3: "sorted_procs [''APRICOT'', ''APPLE''] = [''APPLE''] @ ''APRICOT'' # []" by code_simp
  from fallback_unreachable [OF h1 h2 h3] h1 h2 h3 show ?thesis by blast
qed

end
